theory Spec2Isabelle
  imports Complex_Main "HOL-Library.Word" "HOL-Library.Log_Nat"
begin

unbundle bit_operations_syntax

section \<open>The binary stroke decoder of willparser.py\<close>

text \<open>
  The development embeds the four private methods of class \<open>WillParser\<close> that decode
  the protobuf-shaped payload of a .will section:
  \<open>__read_packed_sint32\<close>, \<open>__decode_will_coordinates\<close>, \<open>__decode_delta_encoded\<close>
  and \<open>__read_will_paths\<close>.

  Python integers are unbounded and are modelled as \<open>int\<close>; a byte of a \<open>bytes\<close>
  object is an \<open>8 word\<close>. A Python float is a binary64 number; a finite one is modelled
  by its exact value, a \<open>rat\<close> (so \<open>0.0\<close> and \<open>-0.0\<close> are one value). Every subscription
  and every division of the source is a branch of the model: \<open>IndexError\<close>,
  \<open>OverflowError\<close> and \<open>ZeroDivisionError\<close> are the exceptions the four methods can raise
  by themselves, and \<open>ParseError\<close> stands for whatever the protobuf3 library raises from
  \<open>parse_from_bytes\<close>.
\<close>

type_synonym byte = "8 word"

datatype error = IndexError | OverflowError | ZeroDivisionError | ParseError

text \<open>
  List subscription \<open>xs[i]\<close> with a non-negative index. The indices the source computes
  by subtraction, \<open>i - 2\<close> under \<open>range(2, _l)\<close> and \<open>i - 1\<close> under \<open>range(1, len(_ints))\<close>,
  are never negative.
\<close>

definition get :: "'a list \<Rightarrow> nat \<Rightarrow> error + 'a" where
  "get xs i = (if i < length xs then Inr (xs ! i) else Inl IndexError)"

subsection \<open>True division of two integers\<close>

text \<open>
  \<open>a / b\<close> on two Python integers is correctly rounded: the result is the binary64 number
  nearest to the exact quotient, ties going to the even significand, and the division
  raises \<open>OverflowError\<close> when that number is not finite, \<open>ZeroDivisionError\<close> when
  \<open>b = 0\<close>. The finite binary64 numbers are the \<open>m * 2^e\<close> with \<open>|m| < 2^53\<close> and
  \<open>-1074 \<le> e \<le> 971\<close>. For \<open>2^k \<le> |q| < 2^(k+1)\<close> the spacing of these numbers around
  \<open>q\<close> is \<open>2^(k - 52)\<close>, and \<open>2^(-1074)\<close> in the subnormal range.
\<close>

definition round_half_even :: "rat \<Rightarrow> int" where
  "round_half_even x =
     (let f = \<lfloor>x\<rfloor>; d = x - of_int f
      in if d < 1 / 2 then f else if 1 / 2 < d then f + 1 else if even f then f else f + 1)"

text \<open>
  For \<open>q > 0\<close>, the \<open>k\<close> with \<open>2^k \<le> q < 2^(k+1)\<close>: the difference of the bit lengths of
  numerator and denominator, or one less.
\<close>

definition floor_log2 :: "rat \<Rightarrow> int" where
  "floor_log2 q =
     (let e = bitlen (fst (quotient_of q)) - bitlen (snd (quotient_of q))
      in if 2 powi e \<le> q then e else e - 1)"

text \<open>The exponent of the spacing around \<open>q\<close>, and \<open>q\<close> rounded to a multiple of it.\<close>

definition binary64_exponent :: "rat \<Rightarrow> int" where
  "binary64_exponent q = max (- 1074) (floor_log2 \<bar>q\<bar> - 52)"

definition round_binary64 :: "rat \<Rightarrow> rat" where
  "round_binary64 q =
     (if q = 0 then 0
      else of_int (round_half_even (q / 2 powi binary64_exponent q)) *
           2 powi binary64_exponent q)"

definition true_div :: "int \<Rightarrow> int \<Rightarrow> error + rat" where
  "true_div a b =
     (if b = 0 then Inl ZeroDivisionError
      else if 2 ^ 1024 \<le> \<bar>round_binary64 (of_int a / of_int b)\<bar> then Inl OverflowError
      else Inr (round_binary64 (of_int a / of_int b)))"

subsection \<open>\<open>__read_packed_sint32\<close>\<close>

text \<open>The zigzag step \<open>(__l >> 1) ^ -(__l & 1)\<close> on a Python integer.\<close>

definition zigzag :: "int \<Rightarrow> int" where
  "zigzag l = (drop_bit 1 l) XOR (- (l AND 1))"

text \<open>
  The \<open>for _b in payload\<close> loop; the arguments after the remaining bytes are the
  loop variables \<open>_ints\<close>, \<open>__l\<close> and \<open>__i\<close>.
\<close>

fun read_packed_sint32_loop :: "byte list \<Rightarrow> int list \<Rightarrow> int \<Rightarrow> nat \<Rightarrow> int list" where
  "read_packed_sint32_loop [] ints l i = ints"
| "read_packed_sint32_loop (b # bs) ints l i =
     (if b AND 0x80 = 0x80
      then read_packed_sint32_loop bs ints (l + push_bit (7 * i) (uint (b AND 0x7F))) (i + 1)
      else (let l' = l + push_bit (7 * i) (uint (b AND 0x7F))
            in read_packed_sint32_loop bs (ints @ [zigzag l']) 0 0))"

definition read_packed_sint32 :: "byte list \<Rightarrow> int list" where
  "read_packed_sint32 payload = read_packed_sint32_loop payload [] 0 0"

subsection \<open>\<open>__decode_will_coordinates\<close>\<close>

text \<open>
  \<open>_l = int(len(_ints) / 2)\<close> is the floor of half the length. The loop
  \<open>for i in range(2, _l)\<close>: the second argument is the rest of the range,
  then come \<open>_points\<close> (still integers) and the running index \<open>_i\<close> into \<open>_ints\<close>.
\<close>

fun coordinates_loop ::
  "int list \<Rightarrow> nat list \<Rightarrow> (int \<times> int) list \<Rightarrow> nat \<Rightarrow> error + (int \<times> int) list" where
  "coordinates_loop ints [] pts j = Inr pts"
| "coordinates_loop ints (i # is) pts j =
     (case get pts (i - 2) of Inl e \<Rightarrow> Inl e | Inr prev \<Rightarrow>
       (case get ints j of Inl e \<Rightarrow> Inl e | Inr dx \<Rightarrow>
         (case get ints (j + 1) of Inl e \<Rightarrow> Inl e | Inr dy \<Rightarrow>
            coordinates_loop ints is (pts @ [(fst prev + dx, snd prev + dy)]) (j + 2))))"

text \<open>
  The loop \<open>for i in range(0, len(_points))\<close> divides both coordinates of every point by
  \<open>_p\<close>, the first before the second; the first division that raises ends the call.
\<close>

fun divide_points :: "int \<Rightarrow> (int \<times> int) list \<Rightarrow> error + (rat \<times> rat) list" where
  "divide_points p [] = Inr []"
| "divide_points p ((x, y) # pts) =
     (case true_div x p of Inl e \<Rightarrow> Inl e | Inr fx \<Rightarrow>
       (case true_div y p of Inl e \<Rightarrow> Inl e | Inr fy \<Rightarrow>
         (case divide_points p pts of Inl e \<Rightarrow> Inl e | Inr fpts \<Rightarrow>
            Inr ((fx, fy) # fpts))))"

definition decode_will_coordinates :: "int list \<Rightarrow> nat \<Rightarrow> error + (rat \<times> rat) list" where
  "decode_will_coordinates ints precision =
     (let l = length ints div 2;
          p = 10 ^ precision
      in case get ints 0 of Inl e \<Rightarrow> Inl e | Inr x0 \<Rightarrow>
          (case get ints 1 of Inl e \<Rightarrow> Inl e | Inr y0 \<Rightarrow>
            (case coordinates_loop ints [2..<l] [(x0, y0)] 2 of Inl e \<Rightarrow> Inl e | Inr pts \<Rightarrow>
               divide_points p pts)))"

subsection \<open>\<open>__decode_delta_encoded\<close>\<close>

text \<open>
  The loop \<open>for i in range(1, len(_ints))\<close> overwrites \<open>_ints\<close> in place, so each
  step reads the element the step before has written.
\<close>

fun delta_loop :: "nat list \<Rightarrow> int list \<Rightarrow> error + int list" where
  "delta_loop [] ints = Inr ints"
| "delta_loop (i # is) ints =
     (case get ints (i - 1) of Inl e \<Rightarrow> Inl e | Inr a \<Rightarrow>
       (case get ints i of Inl e \<Rightarrow> Inl e | Inr b \<Rightarrow>
          delta_loop is (ints[i := a + b])))"

text \<open>
  The loop \<open>for i in range(0, len(_ints))\<close> divides every element by \<open>_p\<close>, in order;
  the first division that raises ends the call.
\<close>

fun divide_all :: "int \<Rightarrow> int list \<Rightarrow> error + rat list" where
  "divide_all p [] = Inr []"
| "divide_all p (x # xs) =
     (case true_div x p of Inl e \<Rightarrow> Inl e | Inr fx \<Rightarrow>
       (case divide_all p xs of Inl e \<Rightarrow> Inl e | Inr fxs \<Rightarrow> Inr (fx # fxs)))"

definition decode_delta_encoded :: "int list \<Rightarrow> nat \<Rightarrow> error + rat list" where
  "decode_delta_encoded ints precision =
     (let p = 10 ^ precision
      in case delta_loop [1..<length ints] ints of Inl e \<Rightarrow> Inl e | Inr acc \<Rightarrow>
           divide_all p acc)"

subsection \<open>\<open>__read_will_paths\<close>\<close>

text \<open>
  The first loop cuts the payload into sub-records. Its variables are \<open>_l\<close> (bytes
  still owed to the current sub-record), \<open>__l\<close> and \<open>__i\<close> (the length prefix under
  construction) and \<open>_paths\<close>. \<open>_paths[len(_paths) - 1]\<close> on an empty list is
  \<open>_paths[-1]\<close>, which raises.
\<close>

fun frame_loop ::
  "byte list \<Rightarrow> int \<Rightarrow> int \<Rightarrow> byte list list \<Rightarrow> nat \<Rightarrow> error + byte list list" where
  "frame_loop [] l ll paths i = Inr paths"
| "frame_loop (b # bs) l ll paths i =
     (if l = 0 then
        (if b AND 0x80 = 0x80
         then frame_loop bs l (ll + push_bit (7 * i) (uint (b AND 0x7F))) paths (i + 1)
         else (let ll' = ll + push_bit (7 * i) (uint (b AND 0x7F))
               in frame_loop bs ll' ll' (paths @ [[]]) i))
      else
        (if paths = [] then Inl IndexError
         else frame_loop bs (l - 1) 0 (butlast paths @ [last paths @ [b]]) 0))"

definition frame :: "byte list \<Rightarrow> error + byte list list" where
  "frame payload = frame_loop payload 0 0 [] 0"

text \<open>
  The message class \<open>Path\<close> of wacompath.py. Fields 1 and 2 are 32-bit floats that the
  decoder never reads; they are kept as rationals.
\<close>

record Path =
  startParameter :: rat
  endParameter :: rat
  decimalPrecision :: "32 word"
  points :: "byte list"
  strokeWidths :: "byte list"
  strokeColor :: "byte list"
  unknown :: "32 word option"

text \<open>
  \<open>numpy.average\<close> belongs to numpy, not to the repository, and its summation order and
  rounding are numpy's own. The model keeps the call with its argument:
  \<open>numpy_average strokes\<close> stands for the float (\<open>nan\<close> on an empty array) that numpy
  returns for the array of these floats. On an array of floats the call raises nothing.
\<close>

datatype avg_width = numpy_average "rat list"

text \<open>The dictionary built for every sub-record, with its four keys.\<close>

record path_dict =
  dict_points :: "(rat \<times> rat) list"
  dict_strokes :: "rat list"
  dict_avg_width :: avg_width
  dict_color :: "int list"

text \<open>The body of the second loop, from a parsed message to its dictionary.\<close>

definition path_to_dict :: "Path \<Rightarrow> error + path_dict" where
  "path_to_dict p =
     (let ints = read_packed_sint32 (points p)
      in case decode_will_coordinates ints (unat (decimalPrecision p)) of
           Inl e \<Rightarrow> Inl e
         | Inr pts \<Rightarrow>
          (case decode_delta_encoded (read_packed_sint32 (strokeWidths p))
                  (unat (decimalPrecision p)) of
             Inl e \<Rightarrow> Inl e
           | Inr strokes \<Rightarrow>
               Inr \<lparr>dict_points = pts,
                    dict_strokes = strokes,
                    dict_avg_width = numpy_average strokes,
                    dict_color = read_packed_sint32 (strokeColor p)\<rparr>))"

text \<open>
  The second loop. \<open>parse_from_bytes\<close> belongs to the protobuf3 library and is a
  parameter here.
\<close>

fun paths_loop ::
  "(byte list \<Rightarrow> error + Path) \<Rightarrow> byte list list \<Rightarrow> path_dict list \<Rightarrow> error + path_dict list" where
  "paths_loop parse_from_bytes [] ret_paths = Inr ret_paths"
| "paths_loop parse_from_bytes (pth # pths) ret_paths =
     (case parse_from_bytes pth of Inl e \<Rightarrow> Inl e | Inr p \<Rightarrow>
       (case path_to_dict p of Inl e \<Rightarrow> Inl e | Inr d \<Rightarrow>
          paths_loop parse_from_bytes pths (ret_paths @ [d])))"

definition read_will_paths ::
  "(byte list \<Rightarrow> error + Path) \<Rightarrow> byte list \<Rightarrow> error + path_dict list" where
  "read_will_paths parse_from_bytes payload =
     (case frame payload of Inl e \<Rightarrow> Inl e | Inr paths \<Rightarrow>
        paths_loop parse_from_bytes paths [])"

subsection \<open>The encoding side of the wire format\<close>

text \<open>
  The repository decodes only. The round-trip statements need the encoder of the format,
  which is not in the source: the base-128 varint of protobuf (seven bits per byte, least
  significant group first, top bit set on every byte but the last), the zigzag map of a
  32-bit signed integer, \<open>(v << 1) ^ (v >> 31)\<close> with an arithmetic right shift, and
  the payload made of sub-records that each follow the varint of their length.
\<close>

fun varint_encode :: "nat \<Rightarrow> byte list" where
  "varint_encode n =
     (if n < 128 then [of_nat n]
      else (of_nat (n mod 128) OR 0x80) # varint_encode (n div 128))"

declare varint_encode.simps [simp del]

definition zigzag_encode :: "32 word \<Rightarrow> 32 word" where
  "zigzag_encode v = push_bit 1 v XOR signed_drop_bit 31 v"

definition encode_records :: "byte list list \<Rightarrow> byte list" where
  "encode_records rs = concat (map (\<lambda>r. varint_encode (length r) @ r) rs)"

subsection \<open>Prefix sums\<close>

text \<open>The sums \<open>ints[0]\<close>, \<open>ints[0] + ints[1]\<close>, ..., one for every index of \<open>ints\<close>.\<close>

definition prefix_sums :: "int list \<Rightarrow> int list" where
  "prefix_sums ints = map (\<lambda>i. sum_list (take (Suc i) ints)) [0..<length ints]"

text \<open>
  \<open>running a xs\<close> lists \<open>a + x\<^sub>1\<close>, \<open>a + x\<^sub>1 + x\<^sub>2\<close>, ...; it is what the in-place
  loop of \<open>__decode_delta_encoded\<close> is shown to compute.
\<close>

fun running :: "int \<Rightarrow> int list \<Rightarrow> int list" where
  "running a [] = []"
| "running a (x # xs) = (a + x) # running (a + x) xs"

section \<open>Bytes of a varint\<close>

lemma low7: "uint ((b :: byte) AND 0x7F) = uint b mod 128"
proof -
  have "(0x7F :: byte) = mask 7" by (simp add: mask_eq_exp_minus_1)
  then have "b AND 0x7F = take_bit 7 b" by (simp only: take_bit_eq_mask)
  then have "uint (b AND 0x7F) = take_bit 7 (uint b)" by (simp only: unsigned_take_bit_eq)
  then show ?thesis by (simp add: take_bit_eq_mod)
qed

lemma and_exp_byte:
  assumes "n < 8"
  shows "((b :: byte) AND 2 ^ n = 2 ^ n) = bit b n"
proof
  assume "b AND 2 ^ n = 2 ^ n"
  then have "bit (b AND 2 ^ n) n = bit (2 ^ n :: byte) n" by simp
  with assms show "bit b n" by (simp add: bit_simps)
next
  assume "bit b n"
  then show "b AND 2 ^ n = 2 ^ n"
    by (intro bit_word_eqI) (auto simp add: bit_simps)
qed

lemma top_bit: "((b :: byte) AND 0x80 = 0x80) = bit b 7"
  using and_exp_byte [of 7 b] by simp

lemma not_bit7: "n < 128 \<Longrightarrow> \<not> bit (n :: nat) 7"
  by (simp add: bit_iff_odd)

lemma top_small: "n < 128 \<Longrightarrow> (of_nat n :: byte) AND 0x80 \<noteq> 0x80"
  by (simp add: top_bit bit_of_nat_iff not_bit7)

lemma low7_small: "n < 128 \<Longrightarrow> uint ((of_nat n :: byte) AND 0x7F) = int n"
  by (simp add: low7 unsigned_of_nat take_bit_eq_mod)

lemma top_cont: "(of_nat m OR 0x80 :: byte) AND 0x80 = 0x80"
  by (simp add: top_bit bit_or_iff)

lemma low7_cont: "uint ((of_nat (n mod 128) OR 0x80 :: byte) AND 0x7F) = int (n mod 128)"
proof -
  have "(of_nat (n mod 128) OR 0x80 :: byte) AND 0x7F = of_nat (n mod 128) AND 0x7F"
    by (simp add: word_ao_dist)
  then show ?thesis by (simp add: low7_small)
qed

section \<open>Decoding an encoded varint\<close>

lemma push_split: "push_bit (7 * i) (int (n mod 128)) + push_bit (7 * (i + 1)) (int (n div 128)) = push_bit (7 * i) (int n)"
proof -
  have "int n = int (n mod 128 + 128 * (n div 128))" by simp
  also have "\<dots> = int (n mod 128) + 128 * int (n div 128)"
    by (simp only: of_nat_add of_nat_mult of_nat_numeral)
  finally have "int n = int (n mod 128) + 128 * int (n div 128)" .
  then have "push_bit (7 * i) (int n) = push_bit (7 * i) (int (n mod 128) + 128 * int (n div 128))"
    by simp
  also have "\<dots> = push_bit (7 * i) (int (n mod 128)) + push_bit (7 * i) (128 * int (n div 128))"
    by (simp only: push_bit_add)
  also have "push_bit (7 * i) (128 * int (n div 128)) = push_bit (7 * (i + 1)) (int (n div 128))"
    by (simp add: push_bit_eq_mult power_add mult.commute)
  finally show ?thesis by simp
qed

lemma packed_loop_varint:
  "read_packed_sint32_loop (varint_encode n @ rest) ints l i =
   read_packed_sint32_loop rest (ints @ [zigzag (l + push_bit (7 * i) (int n))]) 0 0"
proof (induction n arbitrary: l i rule: varint_encode.induct)
  case (1 n)
  show ?case
  proof (cases "n < 128")
    case True
    then show ?thesis
      by (simp add: varint_encode.simps [of n] top_small low7_small)
  next
    case False
    have "read_packed_sint32_loop (varint_encode n @ rest) ints l i =
          read_packed_sint32_loop (varint_encode (n div 128) @ rest) ints
            (l + push_bit (7 * i) (int (n mod 128))) (i + 1)"
      using False by (simp add: varint_encode.simps [of n] top_cont low7_cont)
    also have "\<dots> = read_packed_sint32_loop rest
        (ints @ [zigzag (l + push_bit (7 * i) (int (n mod 128)) + push_bit (7 * (i + 1)) (int (n div 128)))]) 0 0"
      by (rule "1.IH" [OF False])
    finally show ?thesis by (simp only: add.assoc push_split)
  qed
qed

lemma read_packed_varint: "read_packed_sint32 (varint_encode n) = [zigzag (int n)]"
  using packed_loop_varint [of n "[]" "[]" 0 0] by (simp add: read_packed_sint32_def)

section \<open>The zigzag round trip\<close>

lemma zigzag_even: "zigzag (2 * k) = k"
  by (simp add: zigzag_def drop_bit_eq_div and_one_eq)

lemma zigzag_odd: "zigzag (2 * k + 1) = - k - 1"
proof -
  have "drop_bit 1 (2 * k + 1) = k" by (simp add: drop_bit_eq_div)
  moreover have "(2 * k + 1) AND 1 = (1 :: int)" by (simp add: and_one_eq)
  ultimately have "zigzag (2 * k + 1) = k XOR (- 1)" by (simp only: zigzag_def)
  also have "\<dots> = NOT k" by simp
  finally show ?thesis by (simp add: not_int_def)
qed

lemma bit31_iff: "bit (v :: 32 word) 31 = (2 ^ 31 \<le> uint v)"
proof -
  have b: "0 \<le> uint v" "uint v < 2 ^ 32" using uint_bounded [of v] by simp_all
  have "bit v 31 = bit (uint v) 31" by (simp add: bit_uint_iff)
  also have "\<dots> = odd (uint v div 2 ^ 31)" by (simp only: bit_iff_odd)
  also have "\<dots> = (2 ^ 31 \<le> uint v)"
  proof (cases "uint v < 2 ^ 31")
    case True
    then have "uint v div 2 ^ 31 = 0" using b by simp
    with True show ?thesis by simp
  next
    case False
    then have "uint v div 2 ^ 31 = 1" using b by (simp add: int_div_pos_eq [where r = "uint v - 2 ^ 31"])
    with False show ?thesis by simp
  qed
  finally show ?thesis .
qed

lemma sdb31: "signed_drop_bit 31 (v :: 32 word) = (if bit v 31 then - 1 else 0)"
  by (rule bit_word_eqI) (auto simp add: bit_simps not_le)

lemma sint32: "sint (v :: 32 word) = (if uint v < 2 ^ 31 then uint v else uint v - 2 ^ 32)"
proof -
  have b: "0 \<le> uint v" "uint v < 2 ^ 32" using uint_bounded [of v] by simp_all
  have "sint v = signed_take_bit 31 (uint v)" by (simp add: sint_uint)
  also have "\<dots> = take_bit 32 (uint v + 2 ^ 31) - 2 ^ 31"
    by (simp add: signed_take_bit_eq_take_bit_shift)
  also have "\<dots> = (uint v + 2 ^ 31) mod 2 ^ 32 - 2 ^ 31" by (simp only: take_bit_eq_mod)
  also have "\<dots> = (if uint v < 2 ^ 31 then uint v else uint v - 2 ^ 32)"
  proof (cases "uint v < 2 ^ 31")
    case True
    then have "(uint v + 2 ^ 31) mod 2 ^ 32 = uint v + 2 ^ 31"
      using b by simp
    with True show ?thesis by simp
  next
    case False
    have "(uint v + 2 ^ 31) mod 2 ^ 32 = (uint v + 2 ^ 31 - 2 ^ 32) mod 2 ^ 32"
      by (simp only: minus_mod_self2)
    also have "\<dots> = uint v + 2 ^ 31 - 2 ^ 32"
      using b False by simp
    finally show ?thesis using False by simp
  qed
  finally show ?thesis .
qed

lemma uint_zigzag_encode:
  "uint (zigzag_encode v) = (if uint v < 2 ^ 31 then 2 * uint v else 2 * (2 ^ 32 - 1 - uint v) + 1)"
proof -
  have b: "0 \<le> uint v" "uint v < 2 ^ 32" using uint_bounded [of v] by simp_all
  have dbl: "uint (push_bit 1 v) = (2 * uint v) mod 2 ^ 32"
    by (simp add: push_bit_eq_mult uint_word_ariths mult.commute)
  show ?thesis
  proof (cases "uint v < 2 ^ 31")
    case True
    then have "\<not> bit v 31" by (simp add: bit31_iff)
    then have "zigzag_encode v = push_bit 1 v" by (simp add: zigzag_encode_def sdb31)
    moreover have "(2 * uint v) mod 2 ^ 32 = 2 * uint v"
      using b True by simp
    ultimately show ?thesis using True dbl by simp
  next
    case False
    then have "bit v 31" by (simp add: bit31_iff)
    then have "zigzag_encode v = NOT (push_bit 1 v)" by (simp add: zigzag_encode_def sdb31)
    then have "uint (zigzag_encode v) = (NOT (uint (push_bit 1 v))) mod 2 ^ 32"
      by (simp add: unsigned_not_eq take_bit_eq_mod)
    moreover have "(2 * uint v) mod 2 ^ 32 = 2 * uint v - 2 ^ 32"
    proof -
      have "(2 * uint v) mod 2 ^ 32 = (2 * uint v - 2 ^ 32) mod 2 ^ 32"
        by (simp only: minus_mod_self2)
      also have "\<dots> = 2 * uint v - 2 ^ 32"
        using b False by (intro mod_pos_pos_trivial) simp_all
      finally show ?thesis .
    qed
    moreover have "(NOT (2 * uint v - 2 ^ 32)) mod 2 ^ 32 = 2 * (2 ^ 32 - 1 - uint v) + 1"
    proof -
      have n: "NOT (2 * uint v - 2 ^ 32) = 2 ^ 32 - 1 - 2 * uint v"
        by (simp add: not_int_def)
      have "(2 ^ 32 - 1 - 2 * uint v) mod 2 ^ 32 = (2 ^ 32 - 1 - 2 * uint v + 2 ^ 32) mod 2 ^ 32"
        by (simp only: mod_add_self2)
      also have "\<dots> = 2 ^ 32 - 1 - 2 * uint v + 2 ^ 32"
        using b False by (intro mod_pos_pos_trivial) simp_all
      finally show ?thesis by (simp only: n) simp
    qed
    ultimately show ?thesis using False dbl by simp
  qed
qed

lemma zigzag_roundtrip: "zigzag (uint (zigzag_encode v)) = sint v"
proof (cases "uint v < 2 ^ 31")
  case True
  then show ?thesis by (simp only: uint_zigzag_encode sint32 zigzag_even if_True)
next
  case False
  then show ?thesis by (simp only: uint_zigzag_encode sint32 zigzag_odd if_False)
qed

text \<open>
  Claim C9. For every 32-bit signed integer \<open>v\<close>, zigzag-encoding \<open>v\<close>, varint-encoding
  the result and decoding the bytes with \<open>__read_packed_sint32\<close> (the varint loop followed
  by \<open>(u >> 1) ^ -(u & 1)\<close>) yields the one-element list holding exactly \<open>v\<close>.
\<close>

theorem zigzag_varint_round_trip:
  "read_packed_sint32 (varint_encode (unat (zigzag_encode v))) = [sint v]"
  by (simp add: read_packed_varint zigzag_roundtrip)

section \<open>Correct rounding\<close>

text \<open>
  The rounded value lies within half a spacing of the quotient, \<open>floor_log2\<close> is the
  binary logarithm rounded down, and a quotient of magnitude at most \<open>2^1023\<close> rounds to
  a finite binary64 number.
\<close>

lemma round_half_even_near: "\<bar>of_int (round_half_even x) - x\<bar> \<le> 1 / 2"
proof -
  have "of_int \<lfloor>x\<rfloor> \<le> x" "x < of_int \<lfloor>x\<rfloor> + 1" by linarith+
  then show ?thesis by (auto simp add: round_half_even_def Let_def)
qed

lemma floor_log2_bounds:
  assumes "0 < q"
  shows "2 powi floor_log2 q \<le> q" and "q < 2 powi (floor_log2 q + 1)"
proof -
  obtain a b where ab: "quotient_of q = (a, b)" by (cases "quotient_of q")
  then have b: "0 < b" by (rule quotient_of_denom_pos)
  from ab have q: "q = of_int a / of_int b" by (rule quotient_of_div)
  with assms b have a: "0 < a" by (simp add: zero_less_divide_iff)
  let ?la = "bitlen a" and ?lb = "bitlen b"
  from bitlen_bounds [OF a] have a1: "2 ^ nat (?la - 1) \<le> a" and a2: "a < 2 ^ nat ?la" by simp_all
  from bitlen_bounds [OF b] have b1: "2 ^ nat (?lb - 1) \<le> b" and b2: "b < 2 ^ nat ?lb" by simp_all
  from a have la: "1 \<le> ?la" by (simp add: bitlen_alt_def)
  from b have lb: "1 \<le> ?lb" by (simp add: bitlen_alt_def)
  have ra1: "(2::rat) powi (?la - 1) \<le> of_int a"
  proof -
    have "(of_int (2 ^ nat (?la - 1)) :: rat) \<le> of_int a" using a1 by (simp only: of_int_le_iff)
    then show ?thesis using la by (simp add: power_int_def)
  qed
  have ra2: "of_int a < (2::rat) powi ?la"
  proof -
    have "(of_int a :: rat) < of_int (2 ^ nat ?la)" using a2 by (simp only: of_int_less_iff)
    then show ?thesis using la by (simp add: power_int_def)
  qed
  have rb1: "(2::rat) powi (?lb - 1) \<le> of_int b"
  proof -
    have "(of_int (2 ^ nat (?lb - 1)) :: rat) \<le> of_int b" using b1 by (simp only: of_int_le_iff)
    then show ?thesis using lb by (simp add: power_int_def)
  qed
  have rb2: "of_int b < (2::rat) powi ?lb"
  proof -
    have "(of_int b :: rat) < of_int (2 ^ nat ?lb)" using b2 by (simp only: of_int_less_iff)
    then show ?thesis using lb by (simp add: power_int_def)
  qed
  have lo: "(2::rat) powi (?la - ?lb - 1) \<le> q"
  proof -
    have "?la - ?lb - 1 = (?la - 1) - ?lb" by simp
    then have "(2::rat) powi (?la - ?lb - 1) = 2 powi ((?la - 1) - ?lb)" by (simp only:)
    also have "\<dots> = 2 powi (?la - 1) / 2 powi ?lb"
      by (rule power_int_diff) simp
    also have "\<dots> \<le> of_int a / of_int b"
      using ra1 rb2 a b by (intro frac_le) simp_all
    finally show ?thesis by (simp add: q)
  qed
  have hi: "q < (2::rat) powi (?la - ?lb + 1)"
  proof -
    have "of_int a / of_int b < (2::rat) powi ?la / 2 powi (?lb - 1)"
      using ra2 rb1 a by (intro frac_less) simp_all
    also have "\<dots> = 2 powi (?la - (?lb - 1))"
      by (rule power_int_diff [symmetric]) simp
    also have "?la - (?lb - 1) = ?la - ?lb + 1" by simp
    finally show ?thesis by (simp add: q)
  qed
  show "2 powi floor_log2 q \<le> q"
    using lo by (simp add: floor_log2_def Let_def ab)
  show "q < 2 powi (floor_log2 q + 1)"
    using hi by (simp add: floor_log2_def Let_def ab not_le)
qed

lemma round_binary64_error:
  "\<bar>round_binary64 q - q\<bar> \<le> 2 powi binary64_exponent q / 2"
proof (cases "q = 0")
  case True
  then show ?thesis by (simp add: round_binary64_def)
next
  case False
  let ?u = "(2::rat) powi binary64_exponent q"
  have u: "0 < ?u" by simp
  have "round_binary64 q - q = (of_int (round_half_even (q / ?u)) - q / ?u) * ?u"
    using False u by (simp add: round_binary64_def algebra_simps)
  then have "\<bar>round_binary64 q - q\<bar> = \<bar>of_int (round_half_even (q / ?u)) - q / ?u\<bar> * ?u"
    using u by (simp add: abs_mult)
  also have "\<dots> \<le> 1 / 2 * ?u"
    using u by (intro mult_right_mono round_half_even_near) simp
  finally show ?thesis by simp
qed

lemma round_binary64_finite:
  assumes "\<bar>q\<bar> \<le> 2 ^ 1023"
  shows "\<bar>round_binary64 q\<bar> < 2 ^ 1024"
proof (cases "q = 0")
  case True
  then show ?thesis by (simp add: round_binary64_def)
next
  case False
  then have "0 < \<bar>q\<bar>" by simp
  then have "(2::rat) powi floor_log2 \<bar>q\<bar> \<le> \<bar>q\<bar>" by (rule floor_log2_bounds)
  with assms have "(2::rat) powi floor_log2 \<bar>q\<bar> \<le> 2 powi 1023" by simp
  then have "floor_log2 \<bar>q\<bar> \<le> 1023" by (rule power_int_le_imp_le_exp [rotated]) simp_all
  then have e: "binary64_exponent q \<le> 971" by (simp add: binary64_exponent_def)
  have "(2::rat) powi binary64_exponent q \<le> 2 powi 971"
    using e by (intro power_int_increasing) simp_all
  then have "(2::rat) powi binary64_exponent q / 2 \<le> 2 ^ 970" by simp
  with round_binary64_error [of q] have "\<bar>round_binary64 q - q\<bar> \<le> 2 ^ 970" by linarith
  then have "\<bar>round_binary64 q\<bar> \<le> \<bar>q\<bar> + 2 ^ 970" by linarith
  also have "\<dots> \<le> 2 ^ 1023 + 2 ^ 970" using assms by simp
  also have "\<dots> < (2 ^ 1024 :: rat)" by simp
  finally show ?thesis .
qed

lemma true_div_finite:
  assumes "\<bar>a\<bar> \<le> 2 ^ 1023" and "1 \<le> b"
  shows "true_div a b = Inr (round_binary64 (of_int a / of_int b))"
proof -
  have "\<bar>of_int a / of_int b :: rat\<bar> = of_int \<bar>a\<bar> / of_int b" using assms(2) by simp
  also have "\<dots> \<le> of_int \<bar>a\<bar> / 1" using assms(2) by (intro divide_left_mono) simp_all
  also have "\<dots> \<le> 2 ^ 1023"
  proof -
    have "(of_int \<bar>a\<bar> :: rat) \<le> of_int (2 ^ 1023)" using assms(1) by (simp only: of_int_le_iff)
    then show ?thesis by simp
  qed
  finally have "\<bar>round_binary64 (of_int a / of_int b)\<bar> < 2 ^ 1024" by (rule round_binary64_finite)
  with assms(2) show ?thesis by (simp add: true_div_def)
qed

text \<open>A quotient of magnitude at least \<open>2^1025\<close> does not: the division raises.\<close>

lemma round_binary64_overflow:
  assumes "2 ^ 1025 \<le> \<bar>q\<bar>"
  shows "2 ^ 1024 \<le> \<bar>round_binary64 q\<bar>"
proof -
  have "(0::rat) < 2 ^ 1025" by simp
  with assms have q: "0 < \<bar>q\<bar>" by linarith
  then have lo: "(2::rat) powi floor_log2 \<bar>q\<bar> \<le> \<bar>q\<bar>" by (rule floor_log2_bounds)
  have "(2::rat) powi (floor_log2 \<bar>q\<bar> - 52) / 2 \<le> \<bar>q\<bar> / 2"
  proof -
    have "(2::rat) powi (floor_log2 \<bar>q\<bar> - 52) \<le> 2 powi floor_log2 \<bar>q\<bar>"
      by (intro power_int_increasing) simp_all
    with lo show ?thesis by simp
  qed
  moreover have "(2::rat) powi (- 1074) / 2 \<le> \<bar>q\<bar> / 2"
  proof -
    have "(2::rat) powi (- 1074) \<le> 2 powi 1025" by (intro power_int_increasing) simp_all
    with assms show ?thesis by simp
  qed
  ultimately have "(2::rat) powi binary64_exponent q / 2 \<le> \<bar>q\<bar> / 2"
    by (simp add: binary64_exponent_def max_def)
  with round_binary64_error [of q] have "\<bar>round_binary64 q - q\<bar> \<le> \<bar>q\<bar> / 2" by linarith
  then have "\<bar>q\<bar> / 2 \<le> \<bar>round_binary64 q\<bar>" by linarith
  moreover from assms have "(2::rat) ^ 1024 \<le> \<bar>q\<bar> / 2" by simp
  ultimately show ?thesis by linarith
qed

lemma true_div_overflow:
  assumes "2 ^ 1025 * b \<le> \<bar>a\<bar>" and "1 \<le> b"
  shows "true_div a b = Inl OverflowError"
proof -
  have "(of_int (2 ^ 1025 * b) :: rat) \<le> of_int \<bar>a\<bar>" using assms(1) by (simp only: of_int_le_iff)
  then have "(2::rat) ^ 1025 * of_int b \<le> \<bar>of_int a\<bar>" by simp
  then have "(2::rat) ^ 1025 \<le> \<bar>of_int a\<bar> / of_int b"
    using assms(2) by (simp add: pos_le_divide_eq)
  then have "(2::rat) ^ 1025 \<le> \<bar>of_int a / of_int b\<bar>" using assms(2) by simp
  then have "2 ^ 1024 \<le> \<bar>round_binary64 (of_int a / of_int b)\<bar>" by (rule round_binary64_overflow)
  with assms(2) show ?thesis by (simp add: true_div_def)
qed

text \<open>The two division loops, for the divisor \<open>10^p\<close>, which is never zero.\<close>

lemma true_div_pow10:
  "true_div a (10 ^ p) =
     (if \<bar>round_binary64 (of_int a / 10 ^ p)\<bar> < 2 ^ 1024
      then Inr (round_binary64 (of_int a / 10 ^ p)) else Inl OverflowError)"
  by (simp add: true_div_def not_le)

lemma divide_all_pow10:
  "divide_all (10 ^ p) xs =
     (if list_all (\<lambda>s. \<bar>round_binary64 (of_int s / 10 ^ p)\<bar> < 2 ^ 1024) xs
      then Inr (map (\<lambda>s. round_binary64 (of_int s / 10 ^ p)) xs) else Inl OverflowError)"
  by (induction xs) (simp_all add: true_div_pow10)

lemma divide_points_outcome:
  "(\<exists>fpts. divide_points (10 ^ p) pts = Inr fpts \<and> length fpts = length pts \<and>
      (pts \<noteq> [] \<longrightarrow> hd fpts = (round_binary64 (of_int (fst (hd pts)) / 10 ^ p),
                              round_binary64 (of_int (snd (hd pts)) / 10 ^ p)))) \<or>
   divide_points (10 ^ p) pts = Inl OverflowError"
proof (induction pts)
  case Nil
  then show ?case by simp
next
  case (Cons pt pts)
  obtain x y where pt: "pt = (x, y)" by (cases pt)
  from Cons.IH show ?case by (auto simp add: pt true_div_pow10)
qed

lemma divide_points_small:
  assumes "\<forall>pt\<in>set pts. \<bar>fst pt\<bar> \<le> 2 ^ 1023 \<and> \<bar>snd pt\<bar> \<le> 2 ^ 1023"
  shows "\<exists>fpts. divide_points (10 ^ p) pts = Inr fpts"
  using assms
proof (induction pts)
  case Nil
  then show ?case by simp
next
  case (Cons pt pts)
  obtain x y where pt: "pt = (x, y)" by (cases pt)
  from Cons.prems have "\<bar>x\<bar> \<le> 2 ^ 1023" "\<bar>y\<bar> \<le> 2 ^ 1023" by (simp_all add: pt)
  then have "true_div x (10 ^ p) = Inr (round_binary64 (of_int x / of_int (10 ^ p)))"
    "true_div y (10 ^ p) = Inr (round_binary64 (of_int y / of_int (10 ^ p)))"
    by (simp_all add: true_div_finite)
  moreover from Cons obtain fpts where "divide_points (10 ^ p) pts = Inr fpts" by auto
  ultimately show ?case by (simp add: pt)
qed

text \<open>The binary64 numbers nearest to 1, 1.1 and 1.05, and the product \<open>1.1 * 100\<close>.\<close>

lemma binary64_1: "round_binary64 1 = 1"
  by code_simp
lemma binary64_11_10: "round_binary64 (11 / 10) = 2476979795053773 / 2251799813685248"
  by code_simp
lemma binary64_21_20: "round_binary64 (21 / 20) = 4728779608739021 / 4503599627370496"
  by code_simp
lemma binary64_product:
  "round_binary64 (2476979795053773 / 2251799813685248 * 10 ^ 2) =
   7740561859543041 / 70368744177664"
  by code_simp

section \<open>A partial trailing varint\<close>

lemma packed_loop_tail:
  "\<forall>b\<in>set trail. b AND 0x80 = 0x80 \<Longrightarrow> read_packed_sint32_loop trail ints l i = ints"
  by (induction trail arbitrary: l i) simp_all

lemma packed_loop_varints:
  "read_packed_sint32_loop (concat (map varint_encode ns) @ rest) ints 0 0 =
   read_packed_sint32_loop rest (ints @ map (zigzag \<circ> int) ns) 0 0"
proof (induction ns arbitrary: ints)
  case Nil
  then show ?case by simp
next
  case (Cons n ns)
  have "read_packed_sint32_loop (concat (map varint_encode (n # ns)) @ rest) ints 0 0 =
        read_packed_sint32_loop (varint_encode n @ (concat (map varint_encode ns) @ rest)) ints 0 0"
    by simp
  also have "\<dots> = read_packed_sint32_loop (concat (map varint_encode ns) @ rest)
                     (ints @ [zigzag (int n)]) 0 0"
    by (simp add: packed_loop_varint)
  also have "\<dots> = read_packed_sint32_loop rest ((ints @ [zigzag (int n)]) @ map (zigzag \<circ> int) ns) 0 0"
    by (rule Cons.IH)
  finally show ?case by (simp add: comp_def)
qed

text \<open>
  Claim C4, as the code has it. \<open>__read_packed_sint32\<close> has no error path and no
  \<open>MalformedPacked\<close>: on the varints of the numbers \<open>ns\<close>, one after the other, followed
  by bytes \<open>trail\<close> that all carry the continuation bit (a varint cut off before its last
  byte), it returns exactly the zigzag-decoded numbers of the complete varints, in order,
  and silently drops the partial trailing varint.
\<close>

theorem read_packed_sint32_drops_partial:
  assumes "\<forall>b\<in>set trail. b AND 0x80 = 0x80"
  shows "read_packed_sint32 (concat (map varint_encode ns) @ trail) = map (zigzag \<circ> int) ns"
  using assms by (simp add: read_packed_sint32_def packed_loop_varints packed_loop_tail)

text \<open>The theorem at the varints of 8 and 300 followed by two continuation bytes.\<close>

theorem read_packed_sint32_drops_partial_witness:
  "read_packed_sint32 (concat (map varint_encode [8, 300]) @ [0x80, 0x81]) = [4, 150]"
proof -
  have "map (zigzag \<circ> int) [8, 300] = [4, 150]" by code_simp
  then show ?thesis
    using read_packed_sint32_drops_partial [of "[0x80, 0x81]" "[8, 300]"] by simp
qed

text \<open>
  Against C4 as stated: the input \<open>08 0C 80\<close> ends inside a varint, and the call returns
  the two integers before it instead of failing.
\<close>

theorem read_packed_sint32_partial_returns: "read_packed_sint32 [8, 12, 0x80] = [4, 6]"
  by code_simp

section \<open>Scalar delta decoding\<close>

lemma get_in: "i < length xs \<Longrightarrow> get xs i = Inr (xs ! i)"
  by (simp add: get_def)

lemma get_Inr: "get xs i = Inr v \<Longrightarrow> i < length xs \<and> v = xs ! i"
  by (simp add: get_def split: if_splits)

lemma abs_take_mono:
  "j \<le> k \<Longrightarrow> sum_list (map abs (take j xs)) \<le> sum_list (map abs (take k (xs :: int list)))"
proof -
  assume "j \<le> k"
  then have "take k xs = take j xs @ take (k - j) (drop j xs)"
    by (metis le_add_diff_inverse take_add)
  moreover have "0 \<le> sum_list (map abs (take (k - j) (drop j xs)))"
    by (rule sum_list_nonneg) auto
  ultimately show ?thesis by simp
qed

lemma abs_take_le: "sum_list (map abs (take j xs)) \<le> sum_list (map abs (xs :: int list))"
  using abs_take_mono [of j "max j (length xs)" xs] by simp

lemma abs_take_Suc:
  "j < length xs \<Longrightarrow>
   sum_list (map abs (take (Suc j) xs)) = sum_list (map abs (take j xs)) + \<bar>xs ! j :: int\<bar>"
  by (simp add: take_Suc_conv_app_nth)

lemma delta_loop_running:
  "length pre = k \<Longrightarrow>
   delta_loop [Suc k..<Suc k + length ys] (pre @ a # ys) = Inr (pre @ a # running a ys)"
proof (induction ys arbitrary: pre a k)
  case Nil
  then show ?case by simp
next
  case (Cons y ys)
  have r: "[Suc k..<Suc k + length (y # ys)] = Suc k # [Suc (Suc k)..<Suc (Suc k) + length ys]"
    by (simp add: upt_rec)
  have g1: "get (pre @ a # y # ys) (Suc k - 1) = Inr a"
    using Cons.prems by (simp add: get_def nth_append)
  have g2: "get (pre @ a # y # ys) (Suc k) = Inr y"
    using Cons.prems by (simp add: get_def nth_append)
  have u: "(pre @ a # y # ys)[Suc k := a + y] = (pre @ [a]) @ (a + y) # ys"
    using Cons.prems by (simp add: list_update_append)
  have "delta_loop [Suc k..<Suc k + length (y # ys)] (pre @ a # y # ys) =
        delta_loop [Suc (Suc k)..<Suc (Suc k) + length ys] ((pre @ [a]) @ (a + y) # ys)"
    by (simp only: r delta_loop.simps g1 g2 u sum.case)
  also have "\<dots> = Inr ((pre @ [a]) @ (a + y) # running (a + y) ys)"
    by (rule Cons.IH) (simp add: Cons.prems)
  finally show ?case by simp
qed

lemma length_running: "length (running a ys) = length ys"
  by (induction ys arbitrary: a) simp_all

lemma nth_running: "i < length ys \<Longrightarrow> running a ys ! i = a + sum_list (take (Suc i) ys)"
proof (induction ys arbitrary: a i)
  case Nil
  then show ?case by simp
next
  case (Cons y ys)
  then show ?case by (cases i) simp_all
qed

lemma prefix_sums_Cons: "prefix_sums (a # ys) = a # running a ys"
proof (rule nth_equalityI)
  show "length (prefix_sums (a # ys)) = length (a # running a ys)"
    by (simp add: prefix_sums_def length_running)
next
  fix i
  assume "i < length (prefix_sums (a # ys))"
  then have i: "i < Suc (length ys)" by (simp add: prefix_sums_def)
  then have "prefix_sums (a # ys) ! i = sum_list (take (Suc i) (a # ys))"
    unfolding prefix_sums_def by (simp del: upt_Suc take_Suc_Cons)
  also have "\<dots> = (a # running a ys) ! i"
    using i by (cases i) (simp_all add: nth_running)
  finally show "prefix_sums (a # ys) ! i = (a # running a ys) ! i" .
qed

lemma delta_loop_prefix_sums: "delta_loop [1..<length ints] ints = Inr (prefix_sums ints)"
proof (cases ints)
  case Nil
  then show ?thesis by (simp add: prefix_sums_def)
next
  case (Cons a ys)
  then show ?thesis using delta_loop_running [of "[]" 0 ys a] by (simp add: prefix_sums_Cons)
qed

lemma decode_delta_encoded_eq:
  "decode_delta_encoded ints p =
     (if list_all (\<lambda>s. \<bar>round_binary64 (of_int s / 10 ^ p)\<bar> < 2 ^ 1024) (prefix_sums ints)
      then Inr (map (\<lambda>s. round_binary64 (of_int s / 10 ^ p)) (prefix_sums ints))
      else Inl OverflowError)"
  by (simp only: decode_delta_encoded_def Let_def delta_loop_prefix_sums sum.case divide_all_pow10)

lemma length_prefix_sums: "length (prefix_sums ints) = length ints"
  by (simp add: prefix_sums_def)

lemma nth_prefix_sums: "i < length ints \<Longrightarrow> prefix_sums ints ! i = sum_list (take (Suc i) ints)"
  unfolding prefix_sums_def by (simp del: upt_Suc)

lemma abs_prefix_sum: "\<bar>sum_list (take k ints)\<bar> \<le> sum_list (map abs (ints :: int list))"
proof -
  have "\<bar>sum_list (take k ints)\<bar> \<le> sum_list (map abs (take k ints))" by (rule sum_list_abs)
  also have "\<dots> \<le> sum_list (map abs ints)" by (rule abs_take_le)
  finally show ?thesis .
qed

lemma decode_delta_encoded_small:
  assumes "sum_list (map abs ints) \<le> 2 ^ 1023"
  shows "\<exists>ws. decode_delta_encoded ints p = Inr ws \<and> length ws = length ints"
proof -
  have "\<bar>round_binary64 (of_int s / 10 ^ p)\<bar> < 2 ^ 1024" if "s \<in> set (prefix_sums ints)" for s
  proof -
    from that obtain i where "i < length ints" "s = sum_list (take (Suc i) ints)"
      by (auto simp add: prefix_sums_def)
    with abs_prefix_sum [of "Suc i" ints] assms have "\<bar>s\<bar> \<le> 2 ^ 1023" by linarith
    then have "true_div s (10 ^ p) = Inr (round_binary64 (of_int s / of_int (10 ^ p)))"
      by (rule true_div_finite) simp
    then show ?thesis by (simp add: true_div_pow10 split: if_splits)
  qed
  then have "list_all (\<lambda>s. \<bar>round_binary64 (of_int s / 10 ^ p)\<bar> < 2 ^ 1024) (prefix_sums ints)"
    by (simp add: list_all_iff)
  then show ?thesis by (simp add: decode_delta_encoded_eq length_prefix_sums)
qed

text \<open>
  Claim C7, as the code has it. For every non-empty integer sequence \<open>ints\<close> and every
  precision \<open>p\<close>, \<open>__decode_delta_encoded\<close> divides the prefix sums
  \<open>ints[0] + ... + ints[i]\<close> by \<open>10^p\<close> in binary64. When every rounded quotient is
  finite it returns a sequence of the length of \<open>ints\<close> whose \<open>i\<close>-th element is the binary64
  number nearest to the \<open>i\<close>-th prefix sum over \<open>10^p\<close>, so \<open>out[i] * 10^p\<close> is the prefix
  sum only up to that rounding; otherwise it raises \<open>OverflowError\<close>.
\<close>

theorem decode_delta_encoded_rounded_prefix_sums:
  assumes "ints \<noteq> []"
  shows "length (prefix_sums ints) = length ints \<and>
         (\<forall>i<length ints. prefix_sums ints ! i = sum_list (take (Suc i) ints)) \<and>
         decode_delta_encoded ints p =
           (if list_all (\<lambda>s. \<bar>round_binary64 (of_int s / 10 ^ p)\<bar> < 2 ^ 1024) (prefix_sums ints)
            then Inr (map (\<lambda>s. round_binary64 (of_int s / 10 ^ p)) (prefix_sums ints))
            else Inl OverflowError)"
proof (intro conjI)
  show "length (prefix_sums ints) = length ints" by (rule length_prefix_sums)
  show "\<forall>i<length ints. prefix_sums ints ! i = sum_list (take (Suc i) ints)"
    using nth_prefix_sums by blast
  show "decode_delta_encoded ints p =
           (if list_all (\<lambda>s. \<bar>round_binary64 (of_int s / 10 ^ p)\<bar> < 2 ^ 1024) (prefix_sums ints)
            then Inr (map (\<lambda>s. round_binary64 (of_int s / 10 ^ p)) (prefix_sums ints))
            else Inl OverflowError)"
    by (rule decode_delta_encoded_eq)
qed

text \<open>The theorem at the deltas \<open>100, 10, -5\<close> with precision 2.\<close>

theorem decode_delta_encoded_rounded_prefix_sums_witness:
  "decode_delta_encoded [100, 10, - 5] 2 =
     Inr [round_binary64 (100 / 100), round_binary64 (110 / 100), round_binary64 (105 / 100)]"
proof -
  have ne: "[100, 10, - 5] \<noteq> ([] :: int list)" by simp
  have ps: "prefix_sums [100, 10, - 5] = [100, 110, 105]" by code_simp
  have fin: "list_all (\<lambda>s. \<bar>round_binary64 (of_int s / 10 ^ 2)\<bar> < 2 ^ 1024) [100, 110, 105 :: int]"
    by (simp add: binary64_1 binary64_11_10 binary64_21_20)
  from decode_delta_encoded_rounded_prefix_sums [OF ne, of 2] show ?thesis
    by (simp only: ps fin if_True) simp
qed

text \<open>
  Against C7 as stated: at the deltas \<open>100, 10, -5\<close> with precision 2 the second output
  is the binary64 number \<open>1.1\<close>, which is not \<open>110 / 100\<close>; multiplied by \<open>10^2\<close> it is
  not the prefix sum 110, neither exactly nor after the product is rounded to binary64
  (Python prints \<open>110.00000000000001\<close>).
\<close>

theorem decode_delta_encoded_product_differs:
  "decode_delta_encoded [100, 10, - 5] 2 =
     Inr [1, 2476979795053773 / 2251799813685248, 4728779608739021 / 4503599627370496] \<and>
   2476979795053773 / 2251799813685248 * 10 ^ 2 \<noteq> (110 :: rat) \<and>
   round_binary64 (2476979795053773 / 2251799813685248 * 10 ^ 2) \<noteq> 110"
proof -
  have ps: "prefix_sums [100, 10, - 5] = [100, 110, 105]" by code_simp
  have "decode_delta_encoded [100, 10, - 5] 2 =
     Inr [1, 2476979795053773 / 2251799813685248, 4728779608739021 / 4503599627370496]"
    by (simp add: decode_delta_encoded_eq ps binary64_1 binary64_11_10 binary64_21_20)
  moreover have "2476979795053773 / 2251799813685248 * 10 ^ 2 \<noteq> (110 :: rat)" by simp
  moreover have "round_binary64 (2476979795053773 / 2251799813685248 * 10 ^ 2) \<noteq> 110"
    by (simp only: binary64_product)
  ultimately show ?thesis by blast
qed

section \<open>Point decoding\<close>

lemma coordinates_loop_bound:
  "coordinates_loop ints is pts j = Inr r \<Longrightarrow>
   \<forall>pt\<in>set pts. \<bar>fst pt\<bar> \<le> sum_list (map abs (take j ints)) \<and>
                \<bar>snd pt\<bar> \<le> sum_list (map abs (take j ints)) \<Longrightarrow>
   \<forall>pt\<in>set r. \<bar>fst pt\<bar> \<le> sum_list (map abs ints) \<and> \<bar>snd pt\<bar> \<le> sum_list (map abs ints)"
proof (induction "is" arbitrary: pts j)
  case Nil
  then have "r = pts" by simp
  with Nil.prems(2) abs_take_le [of j ints] show ?case by fastforce
next
  case (Cons i "is")
  from Cons.prems(1) obtain prev dx dy
    where p: "get pts (i - 2) = Inr prev" and x: "get ints j = Inr dx"
      and y: "get ints (j + 1) = Inr dy"
      and rest: "coordinates_loop ints is (pts @ [(fst prev + dx, snd prev + dy)]) (j + 2) = Inr r"
    by (auto split: sum.splits)
  from p have prev: "prev \<in> set pts" by (auto dest!: get_Inr)
  from x have jx: "j < length ints" "dx = ints ! j" by (auto dest!: get_Inr)
  from y have jy: "Suc j < length ints" "dy = ints ! Suc j" by (auto dest!: get_Inr)
  let ?B = "\<lambda>k. sum_list (map abs (take k ints))"
  have B1: "?B (Suc j) = ?B j + \<bar>dx\<bar>" using jx by (simp add: abs_take_Suc)
  have B2: "?B (j + 2) = ?B j + \<bar>dx\<bar> + \<bar>dy\<bar>"
    using jy abs_take_Suc [of "Suc j" ints] B1 by simp
  from Cons.prems(2) prev have b: "\<bar>fst prev\<bar> \<le> ?B j" "\<bar>snd prev\<bar> \<le> ?B j" by auto
  have "\<forall>pt\<in>set (pts @ [(fst prev + dx, snd prev + dy)]).
          \<bar>fst pt\<bar> \<le> ?B (j + 2) \<and> \<bar>snd pt\<bar> \<le> ?B (j + 2)"
  proof
    fix pt
    assume "pt \<in> set (pts @ [(fst prev + dx, snd prev + dy)])"
    then consider "pt \<in> set pts" | "pt = (fst prev + dx, snd prev + dy)" by auto
    then show "\<bar>fst pt\<bar> \<le> ?B (j + 2) \<and> \<bar>snd pt\<bar> \<le> ?B (j + 2)"
    proof cases
      case 1
      with Cons.prems(2) have "\<bar>fst pt\<bar> \<le> ?B j" "\<bar>snd pt\<bar> \<le> ?B j" by auto
      then show ?thesis unfolding B2 by linarith
    next
      case 2
      with b show ?thesis unfolding B2 by simp linarith
    qed
  qed
  with rest show ?case by (rule Cons.IH)
qed

lemma coordinates_loop_ok:
  "2 \<le> k \<Longrightarrow> length pts = k - 1 \<Longrightarrow> j = 2 * (k - 1) \<Longrightarrow> 2 * l \<le> length ints \<Longrightarrow>
   \<exists>r. coordinates_loop ints [k..<l] pts j = Inr r \<and> length r = length pts + (l - k) \<and>
       take (length pts) r = pts"
proof (induction "l - k" arbitrary: k pts j)
  case 0
  then show ?case by simp
next
  case (Suc d)
  then have kl: "k < l" by simp
  then have r: "[k..<l] = k # [Suc k..<l]" by (simp add: upt_rec)
  from Suc.prems have g1: "get pts (k - 2) = Inr (pts ! (k - 2))"
    by (intro get_in) simp
  from Suc.prems kl have g2: "get ints j = Inr (ints ! j)"
    by (intro get_in) simp
  from Suc.prems kl have g3: "get ints (j + 1) = Inr (ints ! (j + 1))"
    by (intro get_in) simp
  let ?pts = "pts @ [(fst (pts ! (k - 2)) + ints ! j, snd (pts ! (k - 2)) + ints ! (j + 1))]"
  have step: "coordinates_loop ints [k..<l] pts j = coordinates_loop ints [Suc k..<l] ?pts (j + 2)"
    by (simp only: r coordinates_loop.simps g1 g2 g3 sum.case)
  have "\<exists>r. coordinates_loop ints [Suc k..<l] ?pts (j + 2) = Inr r \<and>
          length r = length ?pts + (l - Suc k) \<and> take (length ?pts) r = ?pts"
    using Suc.hyps(2) Suc.prems by (intro Suc.hyps(1)) simp_all
  then obtain r where r1: "coordinates_loop ints [Suc k..<l] ?pts (j + 2) = Inr r"
    and r2: "length r = length ?pts + (l - Suc k)" and r3: "take (length ?pts) r = ?pts"
    by blast
  from r3 have "take (length pts) (take (length ?pts) r) = take (length pts) ?pts" by simp
  then have "take (length pts) r = pts" by (simp add: min_def)
  with r1 r2 kl show ?case by (simp add: step)
qed

lemma decode_will_coordinates_loop:
  assumes "2 \<le> length ints"
  shows "\<exists>r. coordinates_loop ints [2..<length ints div 2] [(ints ! 0, ints ! 1)] 2 = Inr r \<and>
           length r = 1 + (length ints div 2 - 2) \<and> hd r = (ints ! 0, ints ! 1) \<and>
           decode_will_coordinates ints p = divide_points (10 ^ p) r"
proof -
  from assms have g: "get ints 0 = Inr (ints ! 0)" "get ints 1 = Inr (ints ! 1)"
    by (auto simp add: get_def)
  have "\<exists>r. coordinates_loop ints [2..<length ints div 2] [(ints ! 0, ints ! 1)] 2 = Inr r \<and>
          length r = length [(ints ! 0, ints ! 1)] + (length ints div 2 - 2) \<and>
          take (length [(ints ! 0, ints ! 1)]) r = [(ints ! 0, ints ! 1)]"
    by (rule coordinates_loop_ok) simp_all
  then obtain r
    where r: "coordinates_loop ints [2..<length ints div 2] [(ints ! 0, ints ! 1)] 2 = Inr r"
      and n: "length r = 1 + (length ints div 2 - 2)"
      and t: "take 1 r = [(ints ! 0, ints ! 1)]"
    by auto
  from t have h: "hd r = (ints ! 0, ints ! 1)" by (cases r) simp_all
  have "decode_will_coordinates ints p = divide_points (10 ^ p) r"
    by (simp only: decode_will_coordinates_def Let_def g r sum.case)
  with r n h show ?thesis by blast
qed

lemma decode_will_coordinates_outcome:
  assumes "2 \<le> length ints"
  shows "(\<exists>pts. decode_will_coordinates ints p = Inr pts \<and>
             length pts = 1 + (length ints div 2 - 2) \<and>
             hd pts = (round_binary64 (of_int (ints ! 0) / 10 ^ p),
                       round_binary64 (of_int (ints ! 1) / 10 ^ p))) \<or>
         decode_will_coordinates ints p = Inl OverflowError"
proof -
  from decode_will_coordinates_loop [OF assms, of p] obtain r
    where n: "length r = 1 + (length ints div 2 - 2)" and h: "hd r = (ints ! 0, ints ! 1)"
      and d: "decode_will_coordinates ints p = divide_points (10 ^ p) r"
    by blast
  from n have ne: "r \<noteq> []" by auto
  from divide_points_outcome [of p r] show ?thesis
    using ne by (auto simp add: d n h)
qed

lemma decode_will_coordinates_small:
  assumes "2 \<le> length ints" and "sum_list (map abs ints) \<le> 2 ^ 1023"
  shows "\<exists>pts. decode_will_coordinates ints p = Inr pts"
proof -
  from decode_will_coordinates_loop [OF assms(1), of p] obtain r
    where r: "coordinates_loop ints [2..<length ints div 2] [(ints ! 0, ints ! 1)] 2 = Inr r"
      and d: "decode_will_coordinates ints p = divide_points (10 ^ p) r"
    by blast
  from assms(1) have "take 2 ints = [ints ! 0, ints ! 1]"
    by (cases ints; cases "tl ints") auto
  then have "sum_list (map abs (take 2 ints)) = \<bar>ints ! 0\<bar> + \<bar>ints ! 1\<bar>" by simp
  then have "\<forall>pt\<in>set [(ints ! 0, ints ! 1)].
      \<bar>fst pt\<bar> \<le> sum_list (map abs (take 2 ints)) \<and> \<bar>snd pt\<bar> \<le> sum_list (map abs (take 2 ints))"
    by simp
  with r have "\<forall>pt\<in>set r. \<bar>fst pt\<bar> \<le> sum_list (map abs ints) \<and> \<bar>snd pt\<bar> \<le> sum_list (map abs ints)"
    by (rule coordinates_loop_bound)
  with assms(2) have "\<forall>pt\<in>set r. \<bar>fst pt\<bar> \<le> 2 ^ 1023 \<and> \<bar>snd pt\<bar> \<le> 2 ^ 1023"
    by fastforce
  then show ?thesis unfolding d by (rule divide_points_small)
qed

text \<open>
  A division that raises: the integer \<open>-(2^1105)\<close>, which a varint of 158 bytes decodes
  to, over \<open>10^2\<close>.
\<close>

lemma decode_will_coordinates_overflow:
  "decode_will_coordinates [- (2 ^ 1105), 0] 2 = Inl OverflowError"
proof -
  have "true_div (- (2 ^ 1105)) 100 = Inl OverflowError"
    by (rule true_div_overflow) simp_all
  then show ?thesis by (simp add: decode_will_coordinates_def get_def)
qed

lemma loop4: "coordinates_loop [4, 6, 2, - 2] [2..<2] [(4, 6)] 2 = Inr [(4, 6)]"
  by simp

lemma loop6: "coordinates_loop [4, 6, 2, - 2, 0, 4] [2..<3] [(4, 6)] 2 = Inr [(4, 6), (6, 4)]"
  by code_simp

lemma loop3: "coordinates_loop [4, 6, 7] [2..<1] [(4, 6)] 2 = Inr [(4, 6)]"
  by simp

text \<open>
  Claim C1, at the even-length input \<open>[4, 6, 2, -2]\<close> with precision 2. The claim
  gives \<open>len(ints)/2 = 2\<close> points; \<open>__decode_will_coordinates\<close> returns the first point
  alone, the binary64 numbers \<open>0.04\<close> and \<open>0.06\<close>, since \<open>range(2, _l)\<close> is empty for
  \<open>_l = 2\<close> and the pair \<open>(2, -2)\<close> is never read.
\<close>

theorem decode_will_coordinates_four_ints:
  "decode_will_coordinates [4, 6, 2, - 2] 2 =
     Inr [(round_binary64 (4 / 100), round_binary64 (6 / 100))]"
  using loop4 by (simp add: decode_will_coordinates_def get_def true_div_finite)

text \<open>
  Claim C2, at its own input. The bytes \<open>08 0C 04 03 00 08\<close> packed-decode to
  \<open>[4, 6, 2, -2, 0, 4]\<close>; with precision 2 the claim gives the three points
  \<open>(0.04, 0.06)\<close>, \<open>(0.06, 0.04)\<close>, \<open>(0.06, 0.08)\<close>, and \<open>__decode_will_coordinates\<close>
  returns the first two only: the pair \<open>(0, 4)\<close> is never read.
\<close>

theorem decode_will_coordinates_six_ints:
  "read_packed_sint32 [8, 12, 4, 3, 0, 8] = [4, 6, 2, - 2, 0, 4] \<and>
   decode_will_coordinates [4, 6, 2, - 2, 0, 4] 2 =
     Inr [(round_binary64 (4 / 100), round_binary64 (6 / 100)),
          (round_binary64 (6 / 100), round_binary64 (4 / 100))]"
proof
  show "read_packed_sint32 [8, 12, 4, 3, 0, 8] = [4, 6, 2, - 2, 0, 4]" by code_simp
  show "decode_will_coordinates [4, 6, 2, - 2, 0, 4] 2 =
     Inr [(round_binary64 (4 / 100), round_binary64 (6 / 100)),
          (round_binary64 (6 / 100), round_binary64 (4 / 100))]"
    using loop6 by (simp add: decode_will_coordinates_def get_def true_div_finite)
qed

text \<open>
  Claim C6, as the code has it. \<open>__decode_will_coordinates\<close> checks neither parity nor
  emptiness and knows no \<open>OddLength\<close> or \<open>EmptyInput\<close>. It fails with Python's
  \<open>IndexError\<close> exactly when \<open>len(ints) < 2\<close>. For every \<open>len(ints) \<ge> 2\<close>, odd lengths
  included, it returns a point sequence unless a division raises \<open>OverflowError\<close>, and no
  division does when the absolute values of \<open>ints\<close> sum to at most \<open>2^1023\<close>.
\<close>

theorem decode_will_coordinates_failures:
  "(decode_will_coordinates ints p = Inl IndexError) = (length ints < 2) \<and>
   (2 \<le> length ints \<longrightarrow>
      (\<exists>pts. decode_will_coordinates ints p = Inr pts) \<or>
      decode_will_coordinates ints p = Inl OverflowError) \<and>
   (2 \<le> length ints \<and> sum_list (map abs ints) \<le> 2 ^ 1023 \<longrightarrow>
      (\<exists>pts. decode_will_coordinates ints p = Inr pts))"
proof (intro conjI impI)
  show "(decode_will_coordinates ints p = Inl IndexError) = (length ints < 2)"
  proof (cases "length ints < 2")
    case True
    have "decode_will_coordinates ints p = Inl IndexError"
    proof (cases "ints = []")
      case True
      then have "get ints 0 = Inl IndexError" by (simp add: get_def)
      then show ?thesis by (simp only: decode_will_coordinates_def Let_def sum.case)
    next
      case False
      with \<open>length ints < 2\<close> have "get ints 0 = Inr (ints ! 0)" "get ints 1 = Inl IndexError"
        by (simp_all add: get_def)
      then show ?thesis by (simp only: decode_will_coordinates_def Let_def sum.case)
    qed
    with True show ?thesis by simp
  next
    case False
    then have "2 \<le> length ints" by simp
    from decode_will_coordinates_outcome [OF this, of p] False show ?thesis by auto
  qed
next
  assume "2 \<le> length ints"
  from decode_will_coordinates_outcome [OF this, of p]
  show "(\<exists>pts. decode_will_coordinates ints p = Inr pts) \<or>
        decode_will_coordinates ints p = Inl OverflowError" by blast
next
  assume "2 \<le> length ints \<and> sum_list (map abs ints) \<le> 2 ^ 1023"
  then show "\<exists>pts. decode_will_coordinates ints p = Inr pts"
    using decode_will_coordinates_small by blast
qed

text \<open>The theorem at a single integer and at three integers.\<close>

theorem decode_will_coordinates_failures_witness:
  "decode_will_coordinates [4] 2 = Inl IndexError \<and>
   (\<exists>pts. decode_will_coordinates [1, 2, 3] 0 = Inr pts)"
  using decode_will_coordinates_failures [of "[4]" 2]
    decode_will_coordinates_failures [of "[1, 2, 3]" 0]
  by simp

text \<open>
  Against C6 as stated: three integers are an odd length, and the call returns a point
  sequence.
\<close>

theorem decode_will_coordinates_odd_length:
  "decode_will_coordinates [4, 6, 7] 2 =
     Inr [(round_binary64 (4 / 100), round_binary64 (6 / 100))]"
  using loop3 by (simp add: decode_will_coordinates_def get_def true_div_finite)

section \<open>Framing\<close>

lemma frame_loop_total:
  "(l \<noteq> 0 \<longrightarrow> paths \<noteq> []) \<Longrightarrow> \<exists>ps. frame_loop bs l ll paths i = Inr ps"
proof (induction bs arbitrary: l ll paths i)
  case Nil
  then show ?case by simp
next
  case (Cons b bs)
  then show ?case by (simp add: Let_def)
qed

lemma frame_loop_tail:
  "\<forall>b\<in>set trail. b AND 0x80 = 0x80 \<Longrightarrow> frame_loop trail 0 ll paths i = Inr paths"
  by (induction trail arbitrary: ll i) simp_all

text \<open>
  A length prefix read from the state \<open>_l = 0\<close>. The index \<open>__i\<close> it leaves behind is
  reset by the first content byte, so only its existence is recorded.
\<close>

lemma frame_loop_varint:
  "\<exists>i'. frame_loop (varint_encode n @ rest) 0 ll paths i =
        frame_loop rest (ll + push_bit (7 * i) (int n)) (ll + push_bit (7 * i) (int n))
          (paths @ [[]]) i'"
proof (induction n arbitrary: ll i rule: varint_encode.induct)
  case (1 n)
  show ?case
  proof (cases "n < 128")
    case True
    then show ?thesis
      by (auto simp add: varint_encode.simps [of n] top_small low7_small Let_def)
  next
    case False
    have "frame_loop (varint_encode n @ rest) 0 ll paths i =
          frame_loop (varint_encode (n div 128) @ rest) 0
            (ll + push_bit (7 * i) (int (n mod 128))) paths (i + 1)"
      using False by (simp add: varint_encode.simps [of n] top_cont low7_cont)
    moreover obtain i' where
      "frame_loop (varint_encode (n div 128) @ rest) 0
            (ll + push_bit (7 * i) (int (n mod 128))) paths (i + 1) =
       frame_loop rest
         (ll + push_bit (7 * i) (int (n mod 128)) + push_bit (7 * (i + 1)) (int (n div 128)))
         (ll + push_bit (7 * i) (int (n mod 128)) + push_bit (7 * (i + 1)) (int (n div 128)))
         (paths @ [[]]) i'"
      using "1.IH" [OF False] by blast
    ultimately have "frame_loop (varint_encode n @ rest) 0 ll paths i =
       frame_loop rest (ll + push_bit (7 * i) (int n)) (ll + push_bit (7 * i) (int n))
         (paths @ [[]]) i'"
      by (simp only: add.assoc push_split)
    then show ?thesis by blast
  qed
qed

lemma frame_loop_content:
  "paths \<noteq> [] \<Longrightarrow> r \<noteq> [] \<Longrightarrow> int (length r) \<le> l \<Longrightarrow>
   frame_loop (r @ rest) l ll paths i =
   frame_loop rest (l - int (length r)) 0 (butlast paths @ [last paths @ r]) 0"
proof (induction r arbitrary: l ll paths i)
  case Nil
  then show ?case by simp
next
  case (Cons b r)
  let ?paths = "butlast paths @ [last paths @ [b]]"
  from Cons.prems have l: "l \<noteq> 0" by auto
  with Cons.prems have step: "frame_loop ((b # r) @ rest) l ll paths i =
      frame_loop (r @ rest) (l - 1) 0 ?paths 0" by simp
  show ?case
  proof (cases "r = []")
    case True
    with step show ?thesis by simp
  next
    case False
    have "frame_loop (r @ rest) (l - 1) 0 ?paths 0 =
          frame_loop rest (l - 1 - int (length r)) 0 (butlast ?paths @ [last ?paths @ r]) 0"
      using Cons.prems False by (intro Cons.IH) simp_all
    with step show ?thesis by (simp add: algebra_simps)
  qed
qed

lemma frame_loop_short:
  assumes "paths \<noteq> []" and "int (length part) < l"
  shows "frame_loop part l ll paths i = Inr (butlast paths @ [last paths @ part])"
proof (cases "part = []")
  case True
  with assms show ?thesis by simp
next
  case False
  with assms have "frame_loop (part @ []) l ll paths i =
      frame_loop [] (l - int (length part)) 0 (butlast paths @ [last paths @ part]) 0"
    by (intro frame_loop_content) simp_all
  then show ?thesis by simp
qed

lemma varint_encode_0: "varint_encode 0 = [0]"
  by (simp add: varint_encode.simps [of 0])

lemma frame_loop_record:
  "frame_loop (varint_encode (length r) @ r @ rest) 0 0 paths 0 =
   frame_loop rest 0 0 (paths @ [r]) 0"
proof (cases "r = []")
  case True
  then show ?thesis by (simp add: varint_encode_0)
next
  case False
  obtain i' where "frame_loop (varint_encode (length r) @ r @ rest) 0 0 paths 0 =
     frame_loop (r @ rest) (int (length r)) (int (length r)) (paths @ [[]]) i'"
    using frame_loop_varint [of "length r" "r @ rest" 0 paths 0] by auto
  moreover have "frame_loop (r @ rest) (int (length r)) (int (length r)) (paths @ [[]]) i' =
     frame_loop rest (int (length r) - int (length r)) 0
       (butlast (paths @ [[]]) @ [last (paths @ [[]]) @ r]) 0"
    using False by (intro frame_loop_content) simp_all
  ultimately show ?thesis by simp
qed

lemma frame_loop_records:
  "frame_loop (encode_records rs @ rest) 0 0 paths 0 = frame_loop rest 0 0 (paths @ rs) 0"
proof (induction rs arbitrary: paths)
  case Nil
  then show ?case by (simp add: encode_records_def)
next
  case (Cons r rs)
  have "encode_records (r # rs) @ rest = varint_encode (length r) @ r @ (encode_records rs @ rest)"
    by (simp add: encode_records_def)
  then show ?case by (simp only: frame_loop_record Cons.IH) simp
qed

text \<open>
  Claim C8. For every sequence \<open>rs\<close> of byte strings, the framing loop of
  \<open>__read_will_paths\<close>, run on the concatenation of each string preceded by the varint of
  its length, returns exactly the strings of \<open>rs\<close>, in order and byte for byte.
\<close>

theorem frame_encode_records: "frame (encode_records rs) = Inr rs"
  using frame_loop_records [of rs "[]" "[]"] by (simp add: frame_def)

text \<open>
  Claim C5, as the code has it. The framing loop has no error for truncation, and it
  raises on no payload at all. After correctly framed sub-records \<open>rs\<close>, a length prefix
  \<open>L\<close> followed by fewer than \<open>L\<close> bytes \<open>part\<close> makes the loop emit \<open>part\<close> as a last,
  short sub-record; a final prefix whose bytes \<open>trail\<close> all carry the continuation bit is
  dropped, and the sub-records before it are returned.
\<close>

theorem frame_truncated:
  assumes "length part < L" and "\<forall>b\<in>set trail. b AND 0x80 = 0x80"
  shows "(\<exists>ps. frame payload = Inr ps) \<and>
         frame (encode_records rs @ varint_encode L @ part) = Inr (rs @ [part]) \<and>
         frame (encode_records rs' @ trail) = Inr rs'"
proof (intro conjI)
  show "\<exists>ps. frame payload = Inr ps"
    unfolding frame_def by (rule frame_loop_total) simp
next
  obtain i' where "frame_loop (varint_encode L @ part) 0 0 rs 0 =
      frame_loop part (int L) (int L) (rs @ [[]]) i'"
    using frame_loop_varint [of L part 0 rs 0] by auto
  moreover have "frame_loop part (int L) (int L) (rs @ [[]]) i' =
      Inr (butlast (rs @ [[]]) @ [last (rs @ [[]]) @ part])"
    using assms(1) by (intro frame_loop_short) simp_all
  ultimately show "frame (encode_records rs @ varint_encode L @ part) = Inr (rs @ [part])"
    using frame_loop_records [of rs "varint_encode L @ part" "[]"] by (simp add: frame_def)
next
  show "frame (encode_records rs' @ trail) = Inr rs'"
    using frame_loop_records [of rs' trail "[]"] assms(2) by (simp add: frame_def frame_loop_tail)
qed

text \<open>
  The theorem after the one-byte sub-record \<open>09\<close>: a prefix 3 with two bytes left, and a
  lone continuation byte.
\<close>

theorem frame_truncated_witness:
  "frame (encode_records [[9]] @ varint_encode 3 @ [1, 2]) = Inr [[9], [1, 2]] \<and>
   frame (encode_records [[9]] @ [0x80]) = Inr [[9]]"
  using frame_truncated [of "[1, 2]" 3 "[0x80]" "[]" "[[9]]" "[[9]]"] by simp

text \<open>
  Against C5 as stated: the prefix of \<open>03 01 02\<close> asks for three bytes, two remain, and
  the loop returns them as a sub-record.
\<close>

theorem frame_short_record_emitted: "frame [3, 1, 2] = Inr [[1, 2]]"
  by code_simp

section \<open>Assembly of one sub-record\<close>

text \<open>
  Claim C3, as the code has it. \<open>__read_will_paths\<close> never compares the number of widths
  with the number of points and has no \<open>WidthCountMismatch\<close>. Whenever the points field
  decodes to at least two integers and the integers of the points field and of the
  strokeWidths field are small enough for every division to succeed (their absolute
  values sum to at most \<open>2^1023\<close> in each field), the sub-record yields a dictionary that
  holds exactly what point decoding and width decoding return, with one width for every
  integer of the strokeWidths field, whether or not the two counts agree.
\<close>

theorem path_to_dict_no_width_check:
  assumes "2 \<le> length (read_packed_sint32 (points p))"
    and "sum_list (map abs (read_packed_sint32 (points p))) \<le> 2 ^ 1023"
    and "sum_list (map abs (read_packed_sint32 (strokeWidths p))) \<le> 2 ^ 1023"
  shows "\<exists>pts ws.
           decode_will_coordinates (read_packed_sint32 (points p))
             (unat (decimalPrecision p)) = Inr pts \<and>
           decode_delta_encoded (read_packed_sint32 (strokeWidths p))
             (unat (decimalPrecision p)) = Inr ws \<and>
           length ws = length (read_packed_sint32 (strokeWidths p)) \<and>
           path_to_dict p = Inr \<lparr>dict_points = pts, dict_strokes = ws,
             dict_avg_width = numpy_average ws,
             dict_color = read_packed_sint32 (strokeColor p)\<rparr>"
proof -
  obtain pts where pts:
    "decode_will_coordinates (read_packed_sint32 (points p)) (unat (decimalPrecision p)) = Inr pts"
    using decode_will_coordinates_small [OF assms(1, 2)] by blast
  obtain ws where ws:
    "decode_delta_encoded (read_packed_sint32 (strokeWidths p)) (unat (decimalPrecision p)) = Inr ws"
    and n: "length ws = length (read_packed_sint32 (strokeWidths p))"
    using decode_delta_encoded_small [OF assms(3)] by blast
  have "path_to_dict p = Inr \<lparr>dict_points = pts, dict_strokes = ws,
             dict_avg_width = numpy_average ws,
             dict_color = read_packed_sint32 (strokeColor p)\<rparr>"
    by (simp add: path_to_dict_def pts ws)
  with pts ws n show ?thesis by blast
qed

text \<open>The theorem at a sub-record with four point integers and one width.\<close>

theorem path_to_dict_no_width_check_witness:
  "\<exists>pts ws. length ws = 1 \<and>
      path_to_dict \<lparr>startParameter = 0, endParameter = 1, decimalPrecision = 2,
        points = [8, 12, 4, 3], strokeWidths = [200, 1], strokeColor = [2], unknown = None\<rparr> =
      Inr \<lparr>dict_points = pts, dict_strokes = ws, dict_avg_width = numpy_average ws,
        dict_color = [1]\<rparr>"
proof -
  let ?P = "\<lparr>startParameter = 0, endParameter = 1, decimalPrecision = 2,
      points = [8, 12, 4, 3], strokeWidths = [200, 1], strokeColor = [2], unknown = None\<rparr>"
  have pi: "read_packed_sint32 (points ?P) = [4, 6, 2, - 2]" by code_simp
  have wi: "read_packed_sint32 (strokeWidths ?P) = [100]" by code_simp
  have c: "read_packed_sint32 (strokeColor ?P) = [1]" by code_simp
  have h1: "2 \<le> length (read_packed_sint32 (points ?P))" by (simp only: pi) simp
  have h2: "sum_list (map abs (read_packed_sint32 (points ?P))) \<le> 2 ^ 1023" by (simp only: pi) simp
  have h3: "sum_list (map abs (read_packed_sint32 (strokeWidths ?P))) \<le> 2 ^ 1023"
    by (simp only: wi) simp
  from path_to_dict_no_width_check [OF h1 h2 h3] show ?thesis by (simp only: wi c) auto
qed

lemma packed_points1: "read_packed_sint32 [8, 12] = [4, 6]"
  by code_simp
lemma packed_widths2: "read_packed_sint32 [200, 1, 20] = [100, 10]"
  by code_simp
lemma packed_empty: "read_packed_sint32 [] = []"
  by code_simp
lemma prefix_sums2: "prefix_sums [100, 10] = [100, 110]"
  by code_simp

text \<open>
  Against C3 as stated: the points field \<open>08 0C\<close> decodes to one point, the strokeWidths
  field \<open>C8 01 14\<close> to two widths, and the sub-record is emitted with both.
\<close>

theorem path_to_dict_width_mismatch_emitted:
  "path_to_dict \<lparr>startParameter = 0, endParameter = 1, decimalPrecision = 2, points = [8, 12],
      strokeWidths = [200, 1, 20], strokeColor = [], unknown = None\<rparr> =
   Inr \<lparr>dict_points = [(round_binary64 (4 / 100), round_binary64 (6 / 100))],
        dict_strokes = [round_binary64 (100 / 100), round_binary64 (110 / 100)],
        dict_avg_width = numpy_average [round_binary64 (100 / 100), round_binary64 (110 / 100)],
        dict_color = []\<rparr>"
proof -
  have l: "coordinates_loop [4, 6] [2..<1] [(4, 6)] 2 = Inr [(4, 6)]" by simp
  have p: "decode_will_coordinates [4, 6] 2 = Inr [(round_binary64 (4 / 100), round_binary64 (6 / 100))]"
    using l by (simp add: decode_will_coordinates_def get_def true_div_finite)
  have w: "decode_delta_encoded [100, 10] 2 = Inr [round_binary64 (100 / 100), round_binary64 (110 / 100)]"
    by (simp add: decode_delta_encoded_eq prefix_sums2 binary64_1 binary64_11_10)
  show ?thesis
    by (simp add: path_to_dict_def packed_points1 packed_widths2 packed_empty p w)
qed

text \<open>
  Claim C10. Two parsed sub-records that agree on decimalPrecision, points, strokeWidths
  and strokeColor yield the same result, whatever their startParameter, endParameter and
  unknown fields hold: those three fields reach no emitted dictionary.
\<close>

theorem path_to_dict_ignores_unread_fields:
  assumes "decimalPrecision p = decimalPrecision q" and "points p = points q"
    and "strokeWidths p = strokeWidths q" and "strokeColor p = strokeColor q"
  shows "path_to_dict p = path_to_dict q"
  by (simp only: path_to_dict_def assms)

text \<open>The theorem at two sub-records that differ in all three unread fields.\<close>

theorem path_to_dict_ignores_unread_fields_witness:
  "path_to_dict \<lparr>startParameter = 0, endParameter = 1, decimalPrecision = 2,
      points = [8, 12], strokeWidths = [200, 1], strokeColor = [2], unknown = None\<rparr> =
   path_to_dict \<lparr>startParameter = 1 / 2, endParameter = 3 / 4, decimalPrecision = 2,
      points = [8, 12], strokeWidths = [200, 1], strokeColor = [2], unknown = Some 7\<rparr>"
  by (rule path_to_dict_ignores_unread_fields) simp_all

end
